theory Spec2Isabelle
  imports Complex_Main "HOL-Library.Word" "HOL-Library.Signed_Division"
begin

unbundle bit_operations_syntax

section \<open>The Miller-Rabin primality test of millerRabin.js\<close>

text \<open>
  The JavaScript works on \<open>bigint\<close> values, which never overflow: they are \<open>int\<close> here.
  The candidate \<open>n\<close> is a bigint, as the signature documents; a call with a JavaScript
  number for \<open>n\<close> (where \<open>n & 1n\<close> throws a TypeError) is outside the model.
  \<open>d & 1n\<close> is \<open>d AND 1\<close>, \<open>d >>= 1n\<close> is \<open>drop_bit 1 d\<close> (an arithmetic shift, rounding
  down), \<open>1n << b\<close> is \<open>push_bit b 1\<close> and \<open>%\<close> is the truncating remainder \<open>smod\<close>.
  The accuracy parameter \<open>k\<close> is a JavaScript number, integral or not. The code only
  compares it with the loop counter (\<open>i < k\<close>), so a finite \<open>k\<close> is the \<open>real\<close> number it
  denotes, and \<open>k = 0.5\<close> is a value of the model. The counter \<open>i\<close> counts up from \<open>0\<close> by
  \<open>1\<close> and is exact as long as it stays below \<open>2^53\<close>; it is an \<open>int\<close>.

  The names \<open>range\<close>, \<open>min\<close>, \<open>max\<close> and \<open>mask\<close> of the source are constants of HOL and carry a
  prime here.

  The limits of the engine (memory, the length of an array) are outside the model.

  Two loops of the source have no bound of their own: the halving loop of the
  decomposition and the rejection loop of the sampler. Both are partial functions into
  \<open>option\<close>, where \<open>None\<close> is a loop that never ends. Exceptions are values of the
  type \<open>error\<close>; a function that may throw returns \<open>error + result\<close>.
\<close>

subsection \<open>The platform: entropy source and modular exponentiation\<close>

text \<open>
  The exceptions that can leave \<open>crypto.getRandomValues\<close>: the source has no bytes to
  give, or the request is larger than the platform's quota of 65536 bytes.
\<close>

datatype error = EntropyUnavailable | QuotaExceededError

text \<open>
  The state of the platform's secure random source: the bytes it will hand out, in order.
  A position holding \<open>None\<close> is a point where the source fails to supply a byte.
\<close>

type_synonym entropy = "nat \<Rightarrow> 8 word option"

text \<open>The source after \<open>len\<close> of its bytes have been handed out.\<close>

definition advance :: "nat \<Rightarrow> entropy \<Rightarrow> entropy" where
  "advance len src = (\<lambda>i. src (i + len))"

text \<open>
  \<open>crypto.getRandomValues(new Uint8Array(len))\<close>. A request for more than 65536 bytes
  throws \<open>QuotaExceededError\<close> whatever the state of the source. Otherwise the call gives
  the next \<open>len\<close> bytes of the source and the source after them, or the exception of a
  source that cannot supply them. The JavaScript has no handler around the call, so an
  exception leaves every caller.
\<close>

definition getRandomValues :: "nat \<Rightarrow> entropy \<Rightarrow> error + (8 word list \<times> entropy)" where
  "getRandomValues len src =
     (if 65536 < len then Inl QuotaExceededError
      else case those (map src [0..<len]) of
             None \<Rightarrow> Inl EntropyUnavailable
           | Some randomBytes \<Rightarrow> Inr (randomBytes, advance len src))"

text \<open>
  Sources to run the definitions on: one that yields the byte \<open>0\<close> forever, one
  that fails at once, and one whose bytes are \<open>13, 20, 27, \<dots>\<close> (modulo 256).
\<close>

definition zero_entropy :: entropy where
  "zero_entropy = (\<lambda>i. Some 0)"

definition dead_entropy :: entropy where
  "dead_entropy = (\<lambda>i. None)"

definition ramp_entropy :: entropy where
  "ramp_entropy = (\<lambda>i. Some (of_nat (13 + 7 * i)))"

text \<open>A source whose bytes are all \<open>255\<close>: every bit it supplies is set.\<close>

definition ones_entropy :: entropy where
  "ones_entropy = (\<lambda>i. Some 255)"

text \<open>
  Modelled from the spec: \<open>modPow\<close> is imported from another file (the header of
  millerRabin.js names it) and is not part of the sources at hand. The spec gives its
  contract: \<open>modPow(base, exponent, modulus)\<close> computes \<open>base^exponent mod modulus\<close> for
  non-negative arbitrary-precision integers.
\<close>

definition modPow :: "int \<Rightarrow> int \<Rightarrow> int \<Rightarrow> int" where
  "modPow base exponent modulus = base ^ nat exponent mod modulus"

subsection \<open>checkWitness\<close>

text \<open>
  The loop \<open>for (let j = 0n; j < s - 1n; j++)\<close> of \<open>checkWitness\<close>, entered with the
  current \<open>x\<close> and \<open>j\<close>. It returns \<open>True\<close> from inside the loop as soon as the squared
  value is \<open>n - 1\<close> and \<open>False\<close> when the counter reaches \<open>s - 1\<close>.
\<close>

function squareLoop :: "int \<Rightarrow> int \<Rightarrow> int \<Rightarrow> int \<Rightarrow> bool" where
  "squareLoop x n s j =
     (if j < s - 1
      then (let x' = (x * x) smod n
            in if x' = n - 1 then True else squareLoop x' n s (j + 1))
      else False)"
  by pat_completeness auto
termination
  by (relation "measure (\<lambda>(x, n, s, j). nat (s - 1 - j))") auto

declare squareLoop.simps [simp del]

definition checkWitness :: "int \<Rightarrow> int \<Rightarrow> int \<Rightarrow> int \<Rightarrow> bool" where
  "checkWitness a d n s =
     (let x = modPow a d n
      in if x = 1 \<or> x = n - 1 then True else squareLoop x n s 0)"

subsection \<open>getDeterministicWitnesses\<close>

text \<open>The result \<open>null\<close> is \<open>None\<close>.\<close>

definition getDeterministicWitnesses :: "int \<Rightarrow> int list option" where
  "getDeterministicWitnesses n =
     (if n < 2047 then Some [2]
      else if n < 1373653 then Some [2, 3]
      else if n < 9080191 then Some [31, 73]
      else if n < 25326001 then Some [2, 3, 5]
      else if n < 3215031751 then Some [2, 3, 5, 7]
      else if n < 4759123141 then Some [2, 7, 61]
      else if n < 1122004669633 then Some [2, 13, 23, 1662803]
      else if n < 3474749660383 then Some [2, 3, 5, 7, 11, 13]
      else if n < 341550071728321 then Some [2, 3, 5, 7, 11, 13, 17]
      else None)"

text \<open>
  The table as the specification prints it: rows of an exclusive upper bound and the
  witnesses to test below it, in ascending order of the bound. The selector of the
  specification returns the witnesses of the first row whose bound exceeds \<open>n\<close>.
\<close>

definition publishedTable :: "(int \<times> int list) list" where
  "publishedTable =
     [(2047, [2]),
      (1373653, [2, 3]),
      (9080191, [31, 73]),
      (25326001, [2, 3, 5]),
      (3215031751, [2, 3, 5, 7]),
      (4759123141, [2, 7, 61]),
      (1122004669633, [2, 13, 23, 1662803]),
      (3474749660383, [2, 3, 5, 7, 11, 13]),
      (341550071728321, [2, 3, 5, 7, 11, 13, 17])]"

fun firstRowAbove :: "int \<Rightarrow> (int \<times> int list) list \<Rightarrow> int list option" where
  "firstRowAbove n [] = None"
| "firstRowAbove n ((threshold, witnesses) # rows) =
     (if n < threshold then Some witnesses else firstRowAbove n rows)"

subsection \<open>randomBigIntInRange\<close>

text \<open>
  \<open>range.toString(2)\<close>: the binary digits of a bigint, most significant first, with a
  leading minus sign for a negative value and the single digit \<open>0\<close> for zero.
\<close>

fun binaryDigits :: "nat \<Rightarrow> string" where
  "binaryDigits m =
     (if m < 2 then [if m = 0 then CHR ''0'' else CHR ''1'']
      else binaryDigits (m div 2) @ [if m mod 2 = 0 then CHR ''0'' else CHR ''1''])"

declare binaryDigits.simps [simp del]

definition toString2 :: "int \<Rightarrow> string" where
  "toString2 v = (if v < 0 then CHR ''-'' # binaryDigits (nat (- v)) else binaryDigits (nat v))"

text \<open>
  The inner loop \<open>for (const byte of randomBytes) result = (result << 8n) | BigInt(byte)\<close>,
  started at \<open>0n\<close>: the bytes read as one big-endian number.
\<close>

definition packBytes :: "8 word list \<Rightarrow> int" where
  "packBytes randomBytes = foldl (\<lambda>result byte. push_bit 8 result OR uint byte) 0 randomBytes"

text \<open>
  The \<open>do ... while (result >= range)\<close> loop. Each round draws \<open>bytesNeeded\<close> fresh bytes,
  packs and masks them, and leaves the loop with the first value below \<open>range\<close>. Nothing
  bounds the number of rounds.
\<close>

partial_function (option) rejectionLoop ::
  "int \<Rightarrow> nat \<Rightarrow> int \<Rightarrow> entropy \<Rightarrow> (error + int \<times> entropy) option" where
  "rejectionLoop range' bytesNeeded mask' src =
     (case getRandomValues bytesNeeded src of
        Inl e \<Rightarrow> Some (Inl e)
      | Inr (randomBytes, src') \<Rightarrow>
          (let result = packBytes randomBytes AND mask'
           in if result \<ge> range' then rejectionLoop range' bytesNeeded mask' src'
              else Some (Inr (result, src'))))"

declare rejectionLoop.simps [code]

definition randomBigIntInRange ::
  "int \<Rightarrow> int \<Rightarrow> entropy \<Rightarrow> (error + int \<times> entropy) option" where
  "randomBigIntInRange min' max' src =
     (let range' = max' - min' + 1;
          bitsNeeded = length (toString2 range');
          bytesNeeded = (bitsNeeded + 7) div 8;
          mask' = push_bit bitsNeeded 1 - 1
      in case rejectionLoop range' bytesNeeded mask' src of
           None \<Rightarrow> None
         | Some (Inl e) \<Rightarrow> Some (Inl e)
         | Some (Inr (result, src')) \<Rightarrow> Some (Inr (min' + result, src')))"

subsection \<open>generateRandomWitnesses\<close>

text \<open>
  The loop \<open>for (let i = 0; i < k; i++) witnesses.push(randomBigIntInRange(2n, n - 2n))\<close>,
  entered with the counter \<open>i\<close> and the witnesses pushed so far. The test compares the
  counter with the number \<open>k\<close> as it is: with \<open>k = 0.5\<close> the loop runs once.
\<close>

function witnessLoop ::
  "int \<Rightarrow> real \<Rightarrow> int \<Rightarrow> int list \<Rightarrow> entropy \<Rightarrow> (error + int list \<times> entropy) option" where
  "witnessLoop n k i witnesses src =
     (if of_int i < k
      then (case randomBigIntInRange 2 (n - 2) src of
              None \<Rightarrow> None
            | Some (Inl e) \<Rightarrow> Some (Inl e)
            | Some (Inr (w, src')) \<Rightarrow> witnessLoop n k (i + 1) (witnesses @ [w]) src')
      else Some (Inr (witnesses, src)))"
  by pat_completeness auto
termination
  by (relation "measure (\<lambda>(n, k, i, witnesses, src). nat (\<lceil>k\<rceil> - i))")
    (auto simp: less_ceiling_iff)

declare witnessLoop.simps [simp del]

definition generateRandomWitnesses ::
  "int \<Rightarrow> real \<Rightarrow> entropy \<Rightarrow> (error + int list \<times> entropy) option" where
  "generateRandomWitnesses n k src = witnessLoop n k 0 [] src"

subsection \<open>millerRabin\<close>

text \<open>
  The loop \<open>while ((d & 1n) === 0n) { d >>= 1n; s += 1n; }\<close>. It never ends when entered
  with \<open>d = 0\<close>.
\<close>

partial_function (option) decompose :: "int \<Rightarrow> int \<Rightarrow> (int \<times> int) option" where
  "decompose s d = (if d AND 1 = 0 then decompose (s + 1) (drop_bit 1 d) else Some (s, d))"

declare decompose.simps [code]

text \<open>
  \<open>getDeterministicWitnesses(n) || generateRandomWitnesses(n, k)\<close>: an array is truthy
  (an empty one too), so the right operand is evaluated only for \<open>null\<close>.
\<close>

definition selectWitnesses ::
  "int \<Rightarrow> real \<Rightarrow> entropy \<Rightarrow> (error + int list \<times> entropy) option" where
  "selectWitnesses n k src =
     (case getDeterministicWitnesses n of
        Some witnesses \<Rightarrow> Some (Inr (witnesses, src))
      | None \<Rightarrow> generateRandomWitnesses n k src)"

text \<open>
  The loop \<open>for (const a of witnesses)\<close>: \<open>False\<close> at the first witness that
  \<open>checkWitness\<close> rejects, \<open>True\<close> when the witnesses are used up.
\<close>

fun testWitnesses :: "int list \<Rightarrow> int \<Rightarrow> int \<Rightarrow> int \<Rightarrow> bool" where
  "testWitnesses [] d n s = True"
| "testWitnesses (a # witnesses) d n s =
     (if \<not> checkWitness a d n s then False else testWitnesses witnesses d n s)"

text \<open>
  The result holds the verdict and the state of the entropy source after the call. The
  default \<open>k = 20\<close> of the JavaScript signature stands for an argument the caller left
  out; here the caller always passes \<open>k\<close>.
\<close>

definition millerRabin :: "int \<Rightarrow> real \<Rightarrow> entropy \<Rightarrow> (error + bool \<times> entropy) option" where
  "millerRabin n k src =
     (if n < 2 then Some (Inr (False, src))
      else if n = 2 \<or> n = 3 then Some (Inr (True, src))
      else if n AND 1 = 0 then Some (Inr (False, src))
      else (case decompose 0 (n - 1) of
              None \<Rightarrow> None
            | Some (s, d) \<Rightarrow>
                (case selectWitnesses n k src of
                   None \<Rightarrow> None
                 | Some (Inl e) \<Rightarrow> Some (Inl e)
                 | Some (Inr (witnesses, src')) \<Rightarrow>
                     Some (Inr (testWitnesses witnesses d n s, src')))))"

text \<open>
  The reference oracle of the specification: primality by trial division.
\<close>

definition isPrime :: "int \<Rightarrow> bool" where
  "isPrime n = (2 \<le> n \<and> (\<forall>m \<in> {2..<n}. \<not> m dvd n))"

section \<open>Properties\<close>

subsection \<open>Modular exponentiation by squaring\<close>

lemma nat_halves:
  fixes e :: int
  assumes "0 < e"
  shows "nat e = 2 * nat (e div 2) + nat (e mod 2)"
proof -
  have "e = 2 * (e div 2) + e mod 2" by simp
  moreover have "0 \<le> e div 2" "0 \<le> e mod 2" using assms by simp_all
  ultimately show ?thesis by linarith
qed

text \<open>
  The contract of \<open>modPow\<close> names a power that is far too large to write down for the
  inputs of the test; this equation computes it by repeated squaring.
\<close>

lemma modPow_code [code]:
  "modPow b e m =
     (if e \<le> 0 then 1 mod m
      else let h = modPow ((b * b) mod m) (e div 2) m
           in if e mod 2 = 0 then h else (b * h) mod m)"
proof (cases "e \<le> 0")
  case True
  then show ?thesis by (simp add: modPow_def)
next
  case False
  define q where "q = nat (e div 2)"
  have sq: "((b * b) mod m) ^ q mod m = b ^ (2 * q) mod m"
    by (simp add: power_mod power_mult power2_eq_square)
  show ?thesis
  proof (cases "e mod 2 = 0")
    case True
    with False have "nat e = 2 * q" unfolding q_def using nat_halves [of e] by simp
    with False True sq show ?thesis by (simp add: modPow_def Let_def q_def)
  next
    case odd: False
    then have "e mod 2 = 1" by presburger
    with False have "nat e = Suc (2 * q)" unfolding q_def using nat_halves [of e] by simp
    moreover have "b * (((b * b) mod m) ^ q mod m) mod m = b * b ^ (2 * q) mod m"
      by (simp only: sq mod_mult_right_eq)
    ultimately show ?thesis using False odd by (simp add: modPow_def Let_def q_def)
  qed
qed

subsection \<open>Binary digits\<close>



subsection \<open>The decomposition loop\<close>

text \<open>
  Entered with a positive \<open>d\<close>, the halving loop returns: it stops at the odd part of \<open>d\<close>
  and has counted the factors of two it removed.
\<close>

lemma decompose_returns:
  "0 < d \<Longrightarrow> \<exists>s' d'. decompose s d = Some (s', d') \<and> d' mod 2 = 1 \<and> s \<le> s'
      \<and> 2 ^ nat (s' - s) * d' = d \<and> (d mod 2 = 0 \<longrightarrow> s < s')"
proof (induction "nat d" arbitrary: s d rule: less_induct)
  case less
  show ?case
  proof (cases "d mod 2 = 0")
    case True
    with less.prems have pos: "0 < d div 2" by presburger
    then have "nat (d div 2) < nat d" using less.prems by simp
    from less.hyps [OF this pos, of "s + 1"]
    obtain s' d' where r: "decompose (s + 1) (d div 2) = Some (s', d')" "d' mod 2 = 1" "s + 1 \<le> s'"
      "2 ^ nat (s' - (s + 1)) * d' = d div 2" by blast
    have dec: "decompose s d = Some (s', d')"
      using True r(1) by (subst decompose.simps) (simp add: and_one_eq drop_bit_eq_div)
    from r(3) have "nat (s' - s) = Suc (nat (s' - (s + 1)))" by simp
    then have "2 ^ nat (s' - s) * d' = 2 * (d div 2)" using r(4) by simp
    also have "\<dots> = d" using True by presburger
    finally show ?thesis using dec r(2,3) by simp
  next
    case False
    then have "d mod 2 = 1" by presburger
    moreover have "decompose s d = Some (s, d)"
      using False by (subst decompose.simps) (simp add: and_one_eq)
    ultimately show ?thesis by simp
  qed
qed

text \<open>The halving loop returns nothing when it is entered with \<open>0\<close>.\<close>

lemma decompose_nonzero:
  assumes "decompose s d = Some y"
  shows "d \<noteq> 0"
proof (rule decompose.raw_induct [where P = "\<lambda>s d y. d \<noteq> 0", OF _ assms], goal_cases)
  case (1 f s d y)
  show ?case
  proof
    assume "d = 0"
    with 1(2) have "f (s + 1) 0 = Some y" by simp
    from 1(1) [OF this] show False by simp
  qed
qed

lemma decompose_zero: "decompose s 0 = None"
  using decompose_nonzero [of s 0] by (cases "decompose s 0") auto

subsection \<open>The squaring loop\<close>

text \<open>
  After \<open>i\<close> rounds the loop holds the \<open>2 ^ i\<close>-th power of the value it was entered with,
  reduced modulo \<open>n\<close>; it answers \<open>True\<close> when one of the rounds it is still allowed
  reaches \<open>n - 1\<close>.
\<close>

lemma squareLoop_iff:
  "0 < n \<Longrightarrow> squareLoop x n s j \<longleftrightarrow> (\<exists>i\<ge>1. int i \<le> s - 1 - j \<and> x ^ (2 ^ i) mod n = n - 1)"
proof (induction x n s j rule: squareLoop.induct)
  case (1 x n s j)
  let ?x' = "(x * x) smod n"
  have x': "?x' = x\<^sup>2 mod n"
    using 1(2) by (simp add: smod_mod_positive power2_eq_square)
  have pw: "?x' ^ (2 ^ i) mod n = x ^ (2 ^ Suc i) mod n" for i
    by (simp add: x' power_mod power_mult)
  show ?case
  proof (cases "j < s - 1")
    case False
    then show ?thesis by (subst squareLoop.simps) auto
  next
    case True
    show ?thesis
    proof (cases "?x' = n - 1")
      case hit: True
      then have "x ^ (2 ^ 1) mod n = n - 1" using x' by simp
      moreover have "int 1 \<le> s - 1 - j" using True by simp
      ultimately have "\<exists>i\<ge>1. int i \<le> s - 1 - j \<and> x ^ (2 ^ i) mod n = n - 1" by blast
      moreover have "squareLoop x n s j" using True hit by (subst squareLoop.simps) simp
      ultimately show ?thesis by simp
    next
      case miss: False
      have "squareLoop x n s j = squareLoop ?x' n s (j + 1)"
        using True miss by (subst squareLoop.simps) (simp add: Let_def)
      also have "\<dots> \<longleftrightarrow> (\<exists>i\<ge>1. int i \<le> s - 1 - (j + 1) \<and> ?x' ^ (2 ^ i) mod n = n - 1)"
        using 1(1) [OF True refl miss 1(2)] .
      also have "\<dots> \<longleftrightarrow> (\<exists>i\<ge>1. int i \<le> s - 1 - j \<and> x ^ (2 ^ i) mod n = n - 1)"
      proof
        assume "\<exists>i\<ge>1. int i \<le> s - 1 - (j + 1) \<and> ?x' ^ (2 ^ i) mod n = n - 1"
        then obtain i where "1 \<le> i" "int i \<le> s - 1 - (j + 1)" "?x' ^ (2 ^ i) mod n = n - 1" by blast
        then have "1 \<le> Suc i \<and> int (Suc i) \<le> s - 1 - j \<and> x ^ (2 ^ Suc i) mod n = n - 1"
          using pw [of i] by simp
        then show "\<exists>i\<ge>1. int i \<le> s - 1 - j \<and> x ^ (2 ^ i) mod n = n - 1" by blast
      next
        assume "\<exists>i\<ge>1. int i \<le> s - 1 - j \<and> x ^ (2 ^ i) mod n = n - 1"
        then obtain i where i: "1 \<le> i" "int i \<le> s - 1 - j" "x ^ (2 ^ i) mod n = n - 1" by blast
        have "i \<noteq> 1" using i(3) miss x' by auto
        with i(1) obtain i' where i': "i = Suc i'" "1 \<le> i'" by (cases i) auto
        then have "int i' \<le> s - 1 - (j + 1) \<and> ?x' ^ (2 ^ i') mod n = n - 1"
          using i pw [of i'] by simp
        with i'(2) show "\<exists>i\<ge>1. int i \<le> s - 1 - (j + 1) \<and> ?x' ^ (2 ^ i) mod n = n - 1" by blast
      qed
      finally show ?thesis .
    qed
  qed
qed

subsection \<open>The rejection loop\<close>

text \<open>
  Partial correctness of the rejection loop, by the induction rule of the partial
  function: a value that leaves the loop was masked with a non-negative mask and passed
  the test \<open>result < range\<close>.
\<close>

lemma rejectionLoop_sound:
  assumes returns: "rejectionLoop r b m src = Some (Inr (v, src'))" and mask: "0 \<le> m"
  shows "0 \<le> v \<and> v < r"
proof -
  let ?P = "\<lambda>(r::int) (b::nat) (m::int) (src::entropy) (y :: error + int \<times> entropy).
              0 \<le> m \<longrightarrow> (\<forall>v src'. y = Inr (v, src') \<longrightarrow> 0 \<le> v \<and> v < r)"
  have "?P r b m src (Inr (v, src'))"
  proof (rule rejectionLoop.raw_induct [where P = ?P, OF _ returns], goal_cases)
    case (1 f r b m src y)
    note IH = 1(1) and body = 1(2)
    show ?case
    proof (cases "getRandomValues b src")
      case (Inl e)
      with body show ?thesis by auto
    next
      case (Inr p)
      obtain randomBytes src1 where p: "p = (randomBytes, src1)" by (cases p)
      let ?result = "packBytes randomBytes AND m"
      show ?thesis
      proof (cases "r \<le> ?result")
        case True
        with body Inr p have "f r b m src1 = Some y" by (simp add: Let_def)
        from IH [OF this] show ?thesis .
      next
        case False
        with body Inr p have "y = Inr (?result, src1)" by (simp add: Let_def)
        with False show ?thesis by (auto simp: and_nonnegative_int_iff)
      qed
    qed
  qed
  with mask show ?thesis by simp
qed

text \<open>Whatever the sampler returns lies between its bounds.\<close>

lemma randomBigIntInRange_sound:
  assumes "min' \<le> max'" and "randomBigIntInRange min' max' src = Some (Inr (v, src'))"
  shows "min' \<le> v \<and> v \<le> max'"
proof -
  let ?range = "max' - min' + 1"
  let ?bits = "length (toString2 ?range)"
  let ?mask = "push_bit ?bits 1 - 1 :: int"
  from assms(2) obtain result where
    loop: "rejectionLoop ?range ((?bits + 7) div 8) ?mask src = Some (Inr (result, src'))"
    and v: "v = min' + result"
    by (auto simp: randomBigIntInRange_def Let_def split: option.splits sum.splits prod.splits)
  have "0 \<le> ?mask" by (simp add: push_bit_eq_mult)
  from rejectionLoop_sound [OF loop this] v show ?thesis by simp
qed








subsection \<open>The witness loop\<close>

lemma witnessLoop_sound:
  "witnessLoop n k i witnesses src = Some (Inr (ws, src')) \<Longrightarrow> 4 \<le> n \<Longrightarrow>
   \<forall>a \<in> set witnesses. 2 \<le> a \<and> a \<le> n - 2 \<Longrightarrow> \<forall>a \<in> set ws. 2 \<le> a \<and> a \<le> n - 2"
proof (induction n k i witnesses src rule: witnessLoop.induct)
  case (1 n k i witnesses src)
  show ?case
  proof (cases "of_int i < k")
    case False
    with "1.prems" show ?thesis by (simp add: witnessLoop.simps [of n k i])
  next
    case True
    with "1.prems"(1) obtain w src1 where
      draw: "randomBigIntInRange 2 (n - 2) src = Some (Inr (w, src1))"
      and rest: "witnessLoop n k (i + 1) (witnesses @ [w]) src1 = Some (Inr (ws, src'))"
      by (auto simp: witnessLoop.simps [of n k i] split: option.splits sum.splits prod.splits)
    from "1.prems"(2) have "(2::int) \<le> n - 2" by simp
    from randomBigIntInRange_sound [OF this draw] "1.prems"(3)
    have "\<forall>a \<in> set (witnesses @ [w]). 2 \<le> a \<and> a \<le> n - 2" by simp
    from "1.IH" [OF True draw refl refl rest "1.prems"(2) this] show ?thesis .
  qed
qed

lemma witnessLoop_done:
  "k \<le> of_int i \<Longrightarrow> witnessLoop n k i witnesses src = Some (Inr (witnesses, src))"
  by (simp add: witnessLoop.simps [of n k i])



subsection \<open>The body of millerRabin\<close>

lemma odd_and_one: "odd (n::int) \<Longrightarrow> n AND 1 \<noteq> 0"
  by (simp add: and_one_eq odd_iff_mod_2_eq_one)

lemma even_and_one: "even (n::int) \<Longrightarrow> n AND 1 = 0"
  by (simp add: and_one_eq)

lemma decompose_candidate:
  assumes "odd n" and "5 \<le> n"
  shows "\<exists>s d. decompose 0 (n - 1) = Some (s, d) \<and> 2 ^ nat s * d = n - 1 \<and> d mod 2 = 1 \<and> 1 \<le> s"
proof -
  from assms have pos: "0 < n - 1" and ev: "(n - 1) mod 2 = 0" by presburger+
  from decompose_returns [OF pos, of 0] ev show ?thesis by auto
qed

lemma selectWitnesses_no_samples:
  assumes "341550071728321 \<le> n" and "k \<le> 0"
  shows "selectWitnesses n k src = Some (Inr ([], src))"
  using assms
  by (simp add: selectWitnesses_def getDeterministicWitnesses_def generateRandomWitnesses_def
        witnessLoop_done)



lemma millerRabin_odd:
  assumes "odd n" and "5 \<le> n" and "decompose 0 (n - 1) = Some (s, d)"
  shows "millerRabin n k src =
           (case selectWitnesses n k src of
              None \<Rightarrow> None
            | Some (Inl e) \<Rightarrow> Some (Inl e)
            | Some (Inr (witnesses, src')) \<Rightarrow> Some (Inr (testWitnesses witnesses d n s, src')))"
  using assms by (simp add: millerRabin_def odd_and_one)

lemma millerRabin_small_or_even:
  assumes "n < 5 \<or> even n"
  shows "millerRabin n k src = Some (Inr (n = 2 \<or> n = 3, src))"
proof -
  consider "n < 2" | "n = 2" | "n = 3" | "n = 4" | "5 \<le> n" "even n" using assms by fastforce
  then show ?thesis
    by cases (simp_all add: millerRabin_def even_and_one)
qed

subsection \<open>Runs on concrete inputs\<close>

lemma advance_zero_entropy: "advance len zero_entropy = zero_entropy"
  by (simp add: advance_def zero_entropy_def)

lemma getRandomValues_zero_entropy:
  "len \<le> 65536 \<Longrightarrow> getRandomValues len zero_entropy = Inr (replicate len 0, zero_entropy)"
proof -
  assume "len \<le> 65536"
  moreover have "map zero_entropy [0..<len] = replicate len (Some 0)"
    by (simp add: zero_entropy_def map_replicate_const)
  moreover have "those (replicate len (Some (0 :: 8 word))) = Some (replicate len 0)"
    by (induction len) simp_all
  ultimately show ?thesis by (simp add: getRandomValues_def advance_zero_entropy)
qed

lemma packBytes_zeros: "packBytes (replicate len 0) = 0"
proof -
  have "foldl (\<lambda>result byte. push_bit 8 result OR uint byte) 0 (replicate len (0 :: 8 word)) = 0"
    by (induction len) simp_all
  then show ?thesis by (simp add: packBytes_def)
qed

text \<open>On the all-zero source the first draw is \<open>0\<close>, which every positive range accepts.\<close>

lemma rejectionLoop_zero_entropy:
  "0 < r \<Longrightarrow> b \<le> 65536 \<Longrightarrow> rejectionLoop r b m zero_entropy = Some (Inr (0, zero_entropy))"
  by (subst rejectionLoop.simps) (simp add: getRandomValues_zero_entropy packBytes_zeros)

lemma randomBigIntInRange_zero_entropy:
  "min' \<le> max' \<Longrightarrow> (length (toString2 (max' - min' + 1)) + 7) div 8 \<le> 65536 \<Longrightarrow>
     randomBigIntInRange min' max' zero_entropy = Some (Inr (min', zero_entropy))"
  by (simp add: randomBigIntInRange_def Let_def rejectionLoop_zero_entropy)




text \<open>
  At the last threshold the witnesses are drawn from \<open>[2, n - 2]\<close>, a range of 49 bits:
  seven bytes a draw.
\<close>

lemma toString2_threshold: "length (toString2 341550071728318) = 49"
  by (simp add: toString2_def binaryDigits.simps)

lemma randomBigIntInRange_threshold_zero:
  "randomBigIntInRange 2 341550071728319 zero_entropy = Some (Inr (2, zero_entropy))"
  by (rule randomBigIntInRange_zero_entropy) (simp_all add: toString2_threshold)



lemma toString2_eleven: "toString2 11 = ''1011''"
  by (simp add: toString2_def binaryDigits.simps)

lemma getRandomValues_ramp_first:
  "getRandomValues (Suc 0) ramp_entropy = Inr ([13], advance (Suc 0) ramp_entropy)"
  by (simp add: getRandomValues_def ramp_entropy_def)

lemma getRandomValues_ramp_second:
  "getRandomValues (Suc 0) (advance (Suc 0) ramp_entropy)
     = Inr ([20], advance (Suc 0) (advance (Suc 0) ramp_entropy))"
  by (simp add: getRandomValues_def ramp_entropy_def advance_def)

text \<open>
  A run with one rejection: the range \<open>[10, 20]\<close> has 11 values and needs 4 bits; the byte
  \<open>13\<close> is masked to \<open>13\<close> and rejected, the byte \<open>20\<close> is masked to \<open>4\<close> and accepted.
\<close>

lemma randomBigIntInRange_ramp:
  "randomBigIntInRange 10 20 ramp_entropy = Some (Inr (14, advance 1 (advance 1 ramp_entropy)))"
proof -
  have "rejectionLoop 11 (Suc 0) 15 (advance 1 ramp_entropy)
          = Some (Inr (4, advance 1 (advance 1 ramp_entropy)))"
    by (subst rejectionLoop.simps) (simp add: getRandomValues_ramp_second packBytes_def)
  then have "rejectionLoop 11 (Suc 0) 15 ramp_entropy
          = Some (Inr (4, advance 1 (advance 1 ramp_entropy)))"
    by (subst rejectionLoop.simps) (simp add: getRandomValues_ramp_first packBytes_def)
  then show ?thesis
    by (simp add: randomBigIntInRange_def Let_def toString2_eleven)
qed

text \<open>
  A run that never ends: with \<open>min = max\<close> the range is \<open>1\<close>, one bit is kept of each
  byte, and only the value \<open>0\<close> is accepted. A source whose bytes are all odd is rejected
  in every round, so the sampler returns nothing.
\<close>

lemma getRandomValues_ones_entropy:
  "getRandomValues (Suc 0) ones_entropy = Inr ([255], ones_entropy)"
  by (simp add: getRandomValues_def ones_entropy_def advance_def)

lemma rejectionLoop_ones_entropy:
  "rejectionLoop 1 (Suc 0) 1 ones_entropy = None"
proof (cases "rejectionLoop 1 (Suc 0) 1 ones_entropy")
  case None
  then show ?thesis .
next
  case (Some y)
  let ?P = "\<lambda>(r::int) (b::nat) (m::int) (src::entropy) (y :: error + int \<times> entropy).
              \<not> (r = 1 \<and> b = Suc 0 \<and> m = 1 \<and> src = ones_entropy)"
  have "?P 1 (Suc 0) 1 ones_entropy y"
  proof (rule rejectionLoop.raw_induct [where P = ?P, OF _ Some], goal_cases)
    case (1 f r b m src y)
    show ?case
    proof
      assume "r = 1 \<and> b = Suc 0 \<and> m = 1 \<and> src = ones_entropy"
      with 1(2) have "f 1 (Suc 0) 1 ones_entropy = Some y"
        by (simp add: getRandomValues_ones_entropy packBytes_def)
      from 1(1) [OF this] show False by simp
    qed
  qed
  then show ?thesis by simp
qed

lemma toString2_one: "toString2 1 = ''1''"
  by (simp add: toString2_def binaryDigits.simps)

lemma randomBigIntInRange_seven_zero:
  "randomBigIntInRange 7 7 zero_entropy = Some (Inr (7, zero_entropy))"
  by (rule randomBigIntInRange_zero_entropy) (simp_all add: toString2_one)

lemma randomBigIntInRange_ones_entropy: "randomBigIntInRange 7 7 ones_entropy = None"
  by (simp add: randomBigIntInRange_def Let_def toString2_one rejectionLoop_ones_entropy)

lemma witnessLoop_zero_entropy_two:
  "witnessLoop 341550071728321 2 0 [] zero_entropy = Some (Inr ([2, 2], zero_entropy))"
  by (simp add: witnessLoop.simps randomBigIntInRange_threshold_zero)


text \<open>
  A draw of more than 65536 bytes is refused by the platform whatever the source holds:
  for an odd \<open>n\<close> that large, every call that samples throws the quota error.
\<close>

lemma millerRabin_quota:
  assumes "odd n" and "341550071728321 \<le> n" and "0 < k"
    and big: "65536 < (length (toString2 (n - 3)) + 7) div 8"
  shows "millerRabin n k src = Some (Inl QuotaExceededError)"
proof -
  from assms(2) have five: "5 \<le> n" by simp
  from decompose_candidate [OF assms(1) five]
  obtain s d where dec: "decompose 0 (n - 1) = Some (s, d)" by blast
  have "rejectionLoop r ((length (toString2 (n - 3)) + 7) div 8) m src
          = Some (Inl QuotaExceededError)" for r m
    using big by (subst rejectionLoop.simps) (simp add: getRandomValues_def)
  then have "randomBigIntInRange 2 (n - 2) src = Some (Inl QuotaExceededError)"
    by (simp add: randomBigIntInRange_def Let_def)
  with assms(3) have "witnessLoop n k 0 [] src = Some (Inl QuotaExceededError)"
    by (simp add: witnessLoop.simps [of n k 0])
  with assms(2) have "selectWitnesses n k src = Some (Inl QuotaExceededError)"
    by (simp add: selectWitnesses_def getDeterministicWitnesses_def generateRandomWitnesses_def)
  with millerRabin_odd [OF assms(1) five dec, of k src] show ?thesis by simp
qed

lemma decompose_twelve: "decompose 0 12 = Some (2, 3)"
  by (simp add: decompose.simps)

subsection \<open>Primes are never rejected\<close>

text \<open>
  The reference oracle \<open>isPrime\<close> is trial division. The facts about primes that the test
  rests on are derived from it here: a prime is coprime to what it does not divide, it
  divides the inner binomial coefficients, hence \<open>a^p - a\<close> (Fermat), and \<open>1\<close> has only the
  square roots \<open>1\<close> and \<open>p - 1\<close> modulo \<open>p\<close>.
\<close>

lemma isPrime_coprime:
  assumes "isPrime p" and "\<not> p dvd a"
  shows "coprime p a"
proof (rule coprimeI)
  fix c assume cp: "c dvd p" and ca: "c dvd a"
  from assms(1) have p2: "2 \<le> p" and nodiv: "\<And>m. 2 \<le> m \<Longrightarrow> m < p \<Longrightarrow> \<not> m dvd p"
    by (auto simp: isPrime_def)
  from cp have acp: "\<bar>c\<bar> dvd p" by simp
  with p2 have le: "\<bar>c\<bar> \<le> p" by (intro zdvd_imp_le) simp_all
  have "\<bar>c\<bar> \<noteq> p"
  proof
    assume "\<bar>c\<bar> = p"
    with ca have "p dvd a" by (metis abs_dvd_iff)
    with assms(2) show False by simp
  qed
  with le have lt: "\<bar>c\<bar> < p" by simp
  have "c \<noteq> 0" using cp p2 by auto
  then have "1 \<le> \<bar>c\<bar>" by simp
  moreover have "\<not> 2 \<le> \<bar>c\<bar>" using nodiv [of "\<bar>c\<bar>"] lt acp by blast
  ultimately have "\<bar>c\<bar> = 1" by simp
  then show "is_unit c" by simp
qed

lemma isPrime_dvd_binomial:
  assumes "isPrime p" and "0 < k" and "k < nat p"
  shows "p dvd int (nat p choose k)"
proof -
  from assms(1) have p2: "2 \<le> p" by (simp add: isPrime_def)
  obtain k' where k: "k = Suc k'" using assms(2) by (cases k) auto
  have "Suc k' * (nat p choose Suc k') = nat p * ((nat p - 1) choose k')"
    by (rule binomial_absorption)
  then have "int (Suc k' * (nat p choose Suc k')) = int (nat p * ((nat p - 1) choose k'))"
    by simp
  then have "int k * int (nat p choose k) = p * int ((nat p - 1) choose k')"
    using p2 k by (simp add: algebra_simps)
  then have "p dvd int k * int (nat p choose k)" by simp
  moreover have "\<not> p dvd int k"
    using assms(2,3) by (intro zdvd_not_zless) simp_all
  then have "coprime p (int k)" by (rule isPrime_coprime [OF assms(1)])
  ultimately show ?thesis by (simp add: coprime_dvd_mult_right_iff)
qed

lemma isPrime_dvd_step:
  assumes "isPrime p"
  shows "p dvd (a + 1) ^ nat p - a ^ nat p - 1"
proof -
  let ?n = "nat p"
  from assms have "2 \<le> p" by (simp add: isPrime_def)
  then have n2: "2 \<le> ?n" by simp
  let ?f = "\<lambda>k. int (?n choose k) * a ^ k"
  have "(a + 1) ^ ?n = (\<Sum>k\<le>?n. of_nat (?n choose k) * a ^ k * 1 ^ (?n - k))"
    by (rule binomial_ring)
  also have "\<dots> = (\<Sum>k\<le>?n. ?f k)" by simp
  also have "{..?n} = insert 0 (insert ?n {1..<?n})" using n2 by auto
  also have "(\<Sum>k\<in>insert 0 (insert ?n {1..<?n}). ?f k) = 1 + a ^ ?n + (\<Sum>k\<in>{1..<?n}. ?f k)"
    using n2 by simp
  finally have "(a + 1) ^ ?n - a ^ ?n - 1 = (\<Sum>k\<in>{1..<?n}. ?f k)" by simp
  moreover have "p dvd (\<Sum>k\<in>{1..<?n}. ?f k)"
  proof (rule dvd_sum)
    fix k assume "k \<in> {1..<?n}"
    then have "p dvd int (?n choose k)" by (intro isPrime_dvd_binomial [OF assms]) simp_all
    then show "p dvd ?f k" by simp
  qed
  ultimately show ?thesis by simp
qed

lemma isPrime_dvd_power_diff:
  assumes "isPrime p"
  shows "p dvd int m ^ nat p - int m"
proof (induction m)
  case 0
  from assms have "2 \<le> p" by (simp add: isPrime_def)
  then show ?case by (simp add: power_0_left)
next
  case (Suc m)
  define X Y where "X = (int m + 1) ^ nat p" and "Y = int m ^ nat p"
  from isPrime_dvd_step [OF assms, of "int m"] Suc
  have "p dvd (X - Y - 1) + (Y - int m)" unfolding X_def Y_def by (rule dvd_add)
  moreover have "(X - Y - 1) + (Y - int m) = X - (int m + 1)" by simp
  moreover have "int (Suc m) = int m + 1" by simp
  ultimately show ?case unfolding X_def by (simp only:)
qed

lemma fermat_little:
  assumes "isPrime p" and "\<not> p dvd a"
  shows "a ^ nat (p - 1) mod p = 1"
proof -
  from assms(1) have p2: "2 \<le> p" by (simp add: isPrime_def)
  let ?r = "a mod p"
  have r0: "0 \<le> ?r" using p2 by simp
  have ndvd: "\<not> p dvd ?r" using assms(2) by (simp add: dvd_mod_iff)
  have np: "nat p = Suc (nat (p - 1))" using p2 by simp
  have "p dvd int (nat ?r) ^ nat p - int (nat ?r)" by (rule isPrime_dvd_power_diff [OF assms(1)])
  then have "p dvd ?r ^ nat p - ?r" using r0 by simp
  also have "?r ^ nat p - ?r = ?r * (?r ^ nat (p - 1) - 1)"
    by (simp add: np algebra_simps)
  finally have "p dvd ?r ^ nat (p - 1) - 1"
    using isPrime_coprime [OF assms(1) ndvd] by (simp add: coprime_dvd_mult_right_iff)
  then have "?r ^ nat (p - 1) mod p = 1 mod p" by (simp add: mod_eq_dvd_iff)
  then show ?thesis using p2 by (simp add: power_mod)
qed

lemma isPrime_sqrt_one:
  assumes "isPrime p" and "(x * x) mod p = 1"
  shows "x mod p = 1 \<or> x mod p = p - 1"
proof -
  from assms(1) have p2: "2 \<le> p" by (simp add: isPrime_def)
  from assms(2) p2 have "(x * x) mod p = 1 mod p" by simp
  then have "p dvd x * x - 1" by (simp add: mod_eq_dvd_iff)
  also have "x * x - 1 = (x - 1) * (x + 1)" by (simp add: algebra_simps)
  finally have prod: "p dvd (x - 1) * (x + 1)" .
  show ?thesis
  proof (cases "p dvd x - 1")
    case True
    then have "x mod p = 1 mod p" by (simp add: mod_eq_dvd_iff)
    with p2 show ?thesis by simp
  next
    case False
    from isPrime_coprime [OF assms(1) False] prod have "p dvd x + 1"
      by (simp add: coprime_dvd_mult_right_iff)
    then have "x mod p = (p - 1) mod p" by (simp add: mod_eq_dvd_iff)
    with p2 show ?thesis by (simp add: zmod_minus1)
  qed
qed


text \<open>The witnesses that \<open>millerRabin\<close> iterates over lie in \<open>[2, n - 2]\<close>.\<close>

lemma selectWitnesses_in_range:
  assumes "5 \<le> n" and "selectWitnesses n k src = Some (Inr (ws, src'))"
  shows "\<forall>a \<in> set ws. 2 \<le> a \<and> a \<le> n - 2"
proof (cases "getDeterministicWitnesses n")
  case (Some witnesses)
  with assms(2) have "ws = witnesses" by (simp add: selectWitnesses_def)
  with Some assms(1) show ?thesis
    by (auto simp: getDeterministicWitnesses_def split: if_splits)
next
  case None
  with assms(2) have "witnessLoop n k 0 [] src = Some (Inr (ws, src'))"
    by (simp add: selectWitnesses_def generateRandomWitnesses_def)
  from witnessLoop_sound [OF this] assms(1) show ?thesis by simp
qed

text \<open>
  Walking down the chain of squarings from \<open>y^(2^s) = 1\<close>: either \<open>y\<close> itself is \<open>1\<close>, or
  some earlier member of the chain is \<open>n - 1\<close>.
\<close>

lemma isPrime_power_chain:
  assumes "isPrime n"
  shows "y ^ (2 ^ s) mod n = 1 \<Longrightarrow> y mod n = 1 \<or> (\<exists>i. i < s \<and> y ^ (2 ^ i) mod n = n - 1)"
proof (induction s)
  case 0
  then show ?case by simp
next
  case (Suc s)
  let ?z = "y ^ (2 ^ s)"
  have "y ^ (2 ^ Suc s) = ?z * ?z" by (simp add: power_mult power2_eq_square power_mult_distrib)
  with Suc.prems have "(?z * ?z) mod n = 1" by simp
  from isPrime_sqrt_one [OF assms this] show ?case
  proof
    assume "?z mod n = 1"
    from Suc.IH [OF this] show ?thesis by (auto intro: less_SucI)
  next
    assume "?z mod n = n - 1"
    then show ?thesis by blast
  qed
qed

text \<open>The answer of \<open>checkWitness\<close> in terms of the squaring sequence.\<close>

lemma checkWitness_iff:
  assumes "0 < n"
  shows "checkWitness a d n s \<longleftrightarrow>
           (let x = a ^ nat d mod n
            in x = 1 \<or> x = n - 1 \<or> (\<exists>i \<in> {1..<nat s}. x ^ (2 ^ i) mod n = n - 1))"
proof -
  have "(\<exists>i\<ge>1. int i \<le> s - 1 - 0 \<and> x ^ (2 ^ i) mod n = n - 1) \<longleftrightarrow>
        (\<exists>i \<in> {1..<nat s}. x ^ (2 ^ i) mod n = n - 1)" for x :: int
    by (auto simp: Bex_def)
  then show ?thesis
    using squareLoop_iff [OF assms, of _ s 0]
    by (auto simp: checkWitness_def modPow_def Let_def)
qed

lemma checkWitness_prime:
  assumes prime: "isPrime n" and dec: "2 ^ nat s * d = n - 1" and d: "0 \<le> d" and a: "\<not> n dvd a"
  shows "checkWitness a d n s"
proof -
  from prime have n2: "2 \<le> n" by (simp add: isPrime_def)
  let ?y = "a ^ nat d"
  have "nat d * 2 ^ nat s = nat (d * 2 ^ nat s)" using d by (simp add: nat_mult_distrib nat_power_eq)
  also have "\<dots> = nat (n - 1)" using dec by (simp add: mult.commute)
  finally have "?y ^ (2 ^ nat s) = a ^ nat (n - 1)" by (simp flip: power_mult)
  with fermat_little [OF prime a] have "?y ^ (2 ^ nat s) mod n = 1" by simp
  from isPrime_power_chain [OF prime this]
  consider "?y mod n = 1" | i where "i < nat s" "?y ^ (2 ^ i) mod n = n - 1" by blast
  then have "?y mod n = 1 \<or> ?y mod n = n - 1
               \<or> (\<exists>i \<in> {1..<nat s}. (?y mod n) ^ (2 ^ i) mod n = n - 1)"
  proof cases
    case 1
    then show ?thesis by simp
  next
    case (2 i)
    show ?thesis
    proof (cases "i = 0")
      case True
      with 2 show ?thesis by simp
    next
      case False
      with 2 have "i \<in> {1..<nat s}" "(?y mod n) ^ (2 ^ i) mod n = n - 1"
        by (simp_all add: power_mod)
      then show ?thesis by blast
    qed
  qed
  moreover from n2 have "0 < n" by simp
  ultimately show ?thesis by (simp add: checkWitness_iff Let_def)
qed

lemma testWitnesses_prime:
  assumes "isPrime n" and "2 ^ nat s * d = n - 1" and "0 \<le> d"
  shows "\<forall>a \<in> set ws. \<not> n dvd a \<Longrightarrow> testWitnesses ws d n s"
  by (induction ws) (simp_all add: checkWitness_prime [OF assms])

text \<open>
  A prime is never rejected, whatever witnesses are drawn: a verdict \<open>false\<close> is
  definitive.
\<close>

lemma millerRabin_prime:
  assumes prime: "isPrime n" and ret: "millerRabin n k src = Some (Inr (verdict, src'))"
  shows "verdict"
proof (cases "n < 5 \<or> even n")
  case True
  from prime have n2: "2 \<le> n" and nodiv: "\<And>m. 2 \<le> m \<Longrightarrow> m < n \<Longrightarrow> \<not> m dvd n"
    by (auto simp: isPrime_def)
  have "n = 2 \<or> n = 3"
  proof (rule ccontr)
    assume no: "\<not> (n = 2 \<or> n = 3)"
    with True n2 have "2 < n \<and> even n" by presburger
    with nodiv [of 2] show False by simp
  qed
  with millerRabin_small_or_even [OF True, of k src] ret show ?thesis by simp
next
  case False
  then have o: "odd n" and five: "5 \<le> n" by simp_all
  from decompose_candidate [OF o five]
  obtain s d where dec: "decompose 0 (n - 1) = Some (s, d)" "2 ^ nat s * d = n - 1" "d mod 2 = 1"
    by blast
  have d0: "0 \<le> d"
  proof (rule ccontr)
    assume "\<not> 0 \<le> d"
    then have "2 ^ nat s * d < 0" by (simp add: mult_pos_neg)
    with dec(2) five show False by simp
  qed
  from millerRabin_odd [OF o five dec(1), of k src] ret
  obtain ws where sel: "selectWitnesses n k src = Some (Inr (ws, src'))"
    and v: "verdict = testWitnesses ws d n s"
    by (auto split: option.splits sum.splits prod.splits)
  have "\<forall>a \<in> set ws. \<not> n dvd a"
  proof
    fix a assume "a \<in> set ws"
    with selectWitnesses_in_range [OF five sel] have "0 < a" "a < n" by auto
    then show "\<not> n dvd a" by (rule zdvd_not_zless)
  qed
  with testWitnesses_prime [OF prime dec(2) d0] v show ?thesis by simp
qed

text \<open>
  Below the last threshold the witnesses come from the table, so the call returns, and for
  a prime it returns \<open>true\<close>. The converse for this range (every composite below the last
  threshold is rejected by its row of the table) is the content of the published
  exhaustive searches for strong pseudoprimes; it is not derived here.
\<close>

lemma millerRabin_prime_deterministic:
  assumes prime: "isPrime n" and small: "n < 341550071728321"
  shows "millerRabin n k src = Some (Inr (True, src))"
proof -
  from small have "getDeterministicWitnesses n \<noteq> None"
    by (simp add: getDeterministicWitnesses_def)
  then obtain ws where "getDeterministicWitnesses n = Some ws" by blast
  then have sel: "selectWitnesses n k src = Some (Inr (ws, src))"
    by (simp add: selectWitnesses_def)
  have "\<exists>verdict. millerRabin n k src = Some (Inr (verdict, src))"
  proof (cases "n < 5 \<or> even n")
    case True
    from millerRabin_small_or_even [OF this, of k src] show ?thesis by blast
  next
    case False
    then have o: "odd n" and five: "5 \<le> n" by simp_all
    from decompose_candidate [OF o five]
    obtain s d where "decompose 0 (n - 1) = Some (s, d)" by blast
    from millerRabin_odd [OF o five this, of k src] sel show ?thesis by simp
  qed
  then obtain verdict where ret: "millerRabin n k src = Some (Inr (verdict, src))" ..
  from millerRabin_prime [OF prime ret] ret show ?thesis by simp
qed

section \<open>The claims\<close>

text \<open>
  C2. \<open>millerRabin\<close> answers \<open>false\<close> for every \<open>n < 2\<close>, \<open>true\<close> for 2 and for 3, and
  \<open>false\<close> for every even \<open>n > 2\<close>, before it decomposes \<open>n - 1\<close> or tests a witness: the
  entropy source comes back untouched, and the answer for \<open>n = 1\<close> is there although the
  halving loop would never return on \<open>n - 1 = 0\<close>.
\<close>

theorem millerRabin_edge_cases:
  "(n < 2 \<longrightarrow> millerRabin n k src = Some (Inr (False, src)))
   \<and> millerRabin 2 k src = Some (Inr (True, src))
   \<and> millerRabin 3 k src = Some (Inr (True, src))
   \<and> (2 < n \<and> even n \<longrightarrow> millerRabin n k src = Some (Inr (False, src)))
   \<and> decompose 0 (1 - 1) = None"
  using millerRabin_small_or_even [of n k src] millerRabin_small_or_even [of 2 k src]
    millerRabin_small_or_even [of 3 k src] decompose_zero [of 0]
  by auto

theorem millerRabin_edge_cases_witness:
  "(1 :: int) < 2 \<and> millerRabin 1 20 ramp_entropy = Some (Inr (False, ramp_entropy))
   \<and> (2 :: int) < 100 \<and> even (100 :: int)
   \<and> millerRabin 100 20 ramp_entropy = Some (Inr (False, ramp_entropy))"
  using millerRabin_edge_cases [of 1 20 ramp_entropy]
    millerRabin_edge_cases [of 100 20 ramp_entropy]
  by simp

text \<open>
  C3. For a positive modulus, \<open>checkWitness a d n s\<close> takes \<open>x = a^d mod n\<close> and answers
  \<open>true\<close> exactly when \<open>x\<close> is \<open>1\<close> or \<open>n - 1\<close>, or one of the at most \<open>s - 1\<close> successive
  squarings of \<open>x\<close> modulo \<open>n\<close> is \<open>n - 1\<close>; otherwise it answers \<open>false\<close>.
\<close>

theorem checkWitness_squaring_sequence:
  assumes "0 < n"
  shows "checkWitness a d n s \<longleftrightarrow>
           (let x = a ^ nat d mod n
            in x = 1 \<or> x = n - 1 \<or> (\<exists>i \<in> {1..<nat s}. x ^ (2 ^ i) mod n = n - 1))"
  using assms by (rule checkWitness_iff)

theorem checkWitness_squaring_sequence_witness:
  "(0 :: int) < 561 \<and> \<not> checkWitness 2 35 561 4 \<and> (0 :: int) < 13 \<and> checkWitness 2 3 13 2"
  using checkWitness_squaring_sequence [of 561 2 35 4]
    checkWitness_squaring_sequence [of 13 2 3 2]
  by (simp add: atLeastLessThan_nat_numeral)

text \<open>
  C4. \<open>getDeterministicWitnesses n\<close> is the witness list of the first row of the published
  table whose threshold exceeds \<open>n\<close>, and \<open>null\<close> when no row has one.
\<close>

theorem getDeterministicWitnesses_table:
  "getDeterministicWitnesses n = firstRowAbove n publishedTable"
  by (simp add: getDeterministicWitnesses_def publishedTable_def)

text \<open>
  C5. For every odd \<open>n \<ge> 5\<close> the halving loop started at \<open>(0, n - 1)\<close> returns, and the
  pair \<open>(s, d)\<close> it returns has \<open>2^s * d = n - 1\<close>, \<open>d mod 2 = 1\<close> and \<open>s \<ge> 1\<close>.
\<close>

theorem decomposition_invariant:
  assumes "odd n" and "5 \<le> n"
  shows "\<exists>s d. decompose 0 (n - 1) = Some (s, d) \<and> 2 ^ nat s * d = n - 1 \<and> d mod 2 = 1 \<and> 1 \<le> s"
  using assms by (rule decompose_candidate)

theorem decomposition_invariant_witness:
  "odd (13 :: int) \<and> (5 :: int) \<le> 13 \<and> decompose 0 (13 - 1) = Some (2, 3)
   \<and> (2 :: int) ^ nat 2 * 3 = 13 - 1 \<and> (3 :: int) mod 2 = 1 \<and> (1 :: int) \<le> 2"
  using decomposition_invariant [of 13] by (simp add: decompose_twelve)

text \<open>
  C6. For \<open>min \<le> max\<close>, whenever \<open>randomBigIntInRange(min, max)\<close> returns, the value
  returned lies in the closed interval \<open>[min, max]\<close>; with \<open>min = max\<close> the value returned
  is \<open>min\<close>.
\<close>

theorem randomBigIntInRange_closed_interval:
  assumes "min' \<le> max'" and "randomBigIntInRange min' max' src = Some (Inr (v, src'))"
  shows "min' \<le> v \<and> v \<le> max' \<and> (min' = max' \<longrightarrow> v = min')"
  using randomBigIntInRange_sound [OF assms] by simp

theorem randomBigIntInRange_closed_interval_witness:
  "(10 :: int) \<le> 20
   \<and> randomBigIntInRange 10 20 ramp_entropy = Some (Inr (14, advance 1 (advance 1 ramp_entropy)))
   \<and> (10 :: int) \<le> 14 \<and> (14 :: int) \<le> 20
   \<and> randomBigIntInRange 7 7 zero_entropy = Some (Inr (7, zero_entropy))"
  using randomBigIntInRange_closed_interval
      [of 10 20 ramp_entropy 14 "advance 1 (advance 1 ramp_entropy)"]
    randomBigIntInRange_closed_interval [of 7 7 zero_entropy 7 zero_entropy]
  by (simp add: randomBigIntInRange_ramp randomBigIntInRange_seven_zero)



text \<open>
  C9. For every \<open>n \<ge> 5\<close> (and any \<open>k\<close>), every witness of the sequence that \<open>millerRabin\<close>
  iterates over, taken from the table or sampled, lies in \<open>[2, n - 2]\<close>.
\<close>

theorem witnesses_in_range:
  assumes "5 \<le> n" and "selectWitnesses n k src = Some (Inr (ws, src'))"
  shows "\<forall>a \<in> set ws. 2 \<le> a \<and> a \<le> n - 2"
  using assms by (rule selectWitnesses_in_range)

theorem witnesses_in_range_witness:
  "(5 :: int) \<le> 341550071728321
   \<and> selectWitnesses 341550071728321 2 zero_entropy = Some (Inr ([2, 2], zero_entropy))
   \<and> (2 :: int) \<le> 2 \<and> (2 :: int) \<le> 341550071728321 - 2
   \<and> (5 :: int) \<le> 5 \<and> selectWitnesses 5 20 dead_entropy = Some (Inr ([2], dead_entropy))"
  using witnesses_in_range [of 341550071728321 2 zero_entropy "[2, 2]" zero_entropy]
    witnesses_in_range [of 5 20 dead_entropy "[2]" dead_entropy]
  by (simp add: selectWitnesses_def getDeterministicWitnesses_def generateRandomWitnesses_def
        witnessLoop_zero_entropy_two)

text \<open>
  C10. For every odd \<open>n\<close> at or above the last threshold and every \<open>k \<le> 0\<close>, \<open>millerRabin\<close>
  raises no error and answers \<open>true\<close>: no witness is sampled (the entropy source is
  untouched) and the loop over the empty witness list rejects nothing.
\<close>

theorem millerRabin_no_witnesses:
  assumes "odd n" and "341550071728321 \<le> n" and "k \<le> 0"
  shows "millerRabin n k src = Some (Inr (True, src))"
proof -
  from assms(2) have five: "5 \<le> n" by simp
  from decompose_candidate [OF assms(1) five]
  obtain s d where "decompose 0 (n - 1) = Some (s, d)" by blast
  from millerRabin_odd [OF assms(1) five this, of k src]
    selectWitnesses_no_samples [OF assms(2,3), of src]
  show ?thesis by simp
qed

theorem millerRabin_no_witnesses_witness:
  "odd (341550071728323 :: int) \<and> (341550071728321 :: int) \<le> 341550071728323 \<and> (- 3 :: int) \<le> 0
   \<and> millerRabin 341550071728323 (- 3) dead_entropy = Some (Inr (True, dead_entropy))"
  using millerRabin_no_witnesses [of 341550071728323 "- 3" dead_entropy] by simp




end
